theory Spec2Isabelle
  imports Main "HOL-Library.Word" "HOL-Library.Sublist"
begin

section \<open>Data model of sol\_viewer.py\<close>

text \<open>
  A file's content is a Python \<open>bytes\<close> value: a list of octets. A token is the pair
  \<open>(kind, value)\<close> of two Python strings that the scanner appends, with the kinds
  \<open>''Byte''\<close>, \<open>''String''\<close> and \<open>''Error''\<close>. What the scanner hands back is the
  triple \<open>(parsed_data, was_incomplete, status_message)\<close>.

  A character of a Python \<open>str\<close> is modelled by a \<open>char\<close>, read as the code point
  of the same number (0 to 255). Every text the scanner produces is ASCII, so nothing
  beyond that range arises from it.
\<close>

type_synonym byte = "8 word"
type_synonym token = "string \<times> string"
type_synonym outcome = "token list \<times> bool \<times> string"

section \<open>The scanner: \<open>_parse_sol_content_threaded\<close>\<close>

text \<open>The character class \<open>[ -~\t\n\r]\<close> of \<open>printable_chars_pattern\<close>.\<close>

definition printable :: "byte \<Rightarrow> bool" where
  "printable b = ((0x20 \<le> unat b \<and> unat b \<le> 0x7E) \<or> unat b = 0x09 \<or> unat b = 0x0A \<or> unat b = 0x0D)"

text \<open>\<open>"0x{:02x}".format(byte_val)\<close>: two lowercase hexadecimal digits after \<open>0x\<close>.\<close>

definition hex_digit :: "nat \<Rightarrow> char" where
  "hex_digit n = ''0123456789abcdef'' ! (n mod 16)"

definition format_byte :: "byte \<Rightarrow> string" where
  "format_byte b = ''0x'' @ [hex_digit (unat b div 16), hex_digit (unat b mod 16)]"

definition byte_token :: "byte \<Rightarrow> token" where
  "byte_token byte_val = (''Byte'', format_byte byte_val)"

text \<open>
  \<open>bytes.decode('utf-8', errors='ignore')\<close>. An octet below 0x80 decodes to the character
  of the same code; the model drops every other octet, which is what \<open>errors='ignore'\<close>
  does with an octet that is not part of a well-formed multi-byte sequence. The scanner
  only ever decodes a match of the pattern, which holds no octet of 0x80 or above
  (lemma \<open>decode_ignore_printable\<close> below), so well-formed multi-byte sequences do not
  arise.
\<close>

definition decode_ignore :: "byte list \<Rightarrow> string" where
  "decode_ignore bs = map (\<lambda>b. char_of (unat b)) (filter (\<lambda>b. unat b < 0x80) bs)"

text \<open>
  The Python slices \<open>data[:n]\<close> (where a negative \<open>n\<close> counts from the end) and
  \<open>data[i:j]\<close> for indices that are not negative.
\<close>

definition slice_to :: "'a list \<Rightarrow> int \<Rightarrow> 'a list" where
  "slice_to xs n = (if 0 \<le> n then take (nat n) xs else take (length xs - nat (- n)) xs)"

definition slice :: "'a list \<Rightarrow> nat \<Rightarrow> nat \<Rightarrow> 'a list" where
  "slice xs i j = take (j - i) (drop i xs)"

text \<open>
  \<open>re.finditer(b'[ -~\t\n\r]{2,}', data_to_process)\<close>, as the list of the spans
  \<open>(match.start(), match.end())\<close>. At a position the greedy pattern takes the whole
  run of printable octets starting there and matches when the run has two octets or
  more; the search goes on at the end of the match. Where it does not match, the
  search moves one octet to the right. \<open>finditer pos bs\<close> searches \<open>bs\<close>, the
  buffer from position \<open>pos\<close> on.
\<close>

function finditer :: "nat \<Rightarrow> byte list \<Rightarrow> (nat \<times> nat) list" where
  "finditer pos [] = []"
| "finditer pos (b # bs) =
     (let n = length (takeWhile printable (b # bs))
      in if 2 \<le> n then (pos, pos + n) # finditer (pos + n) (drop n (b # bs))
         else finditer (pos + 1) bs)"
  by pat_completeness auto
termination
  by (relation "measure (\<lambda>(pos, bs). length bs)") auto

text \<open>
  The body of the \<open>for match in ...\<close> loop and the code after it. \<open>stop k\<close> is what
  \<open>stop_parsing_event.is_set()\<close> answers at the \<open>k\<close>-th poll (one poll for each match,
  before the match is handled); \<open>final_parsed_data\<close> and \<open>last_match_end\<close> are the
  loop's two variables.
\<close>

fun scan_matches :: "byte list \<Rightarrow> (nat \<Rightarrow> bool) \<Rightarrow> nat \<Rightarrow> (nat \<times> nat) list \<Rightarrow> token list \<Rightarrow> nat \<Rightarrow> outcome" where
  "scan_matches data_to_process stop k [] final_parsed_data last_match_end =
     (final_parsed_data @
        (if last_match_end < length data_to_process
         then map byte_token (drop last_match_end data_to_process) else []),
      False, ''Complete'')"
| "scan_matches data_to_process stop k ((start, end) # ms) final_parsed_data last_match_end =
     (if stop k then (final_parsed_data, True, ''Interrupted'')
      else
        let with_bytes =
              (if start > last_match_end
               then final_parsed_data @ map byte_token (slice data_to_process last_match_end start)
               else final_parsed_data);
            raw_string = decode_ignore (slice data_to_process start end);
            with_string =
              (if raw_string \<noteq> [] then with_bytes @ [(''String'', raw_string)] else with_bytes)
        in scan_matches data_to_process stop (k + 1) ms with_string end)"

text \<open>
  The whole function. Reading the file either raises (\<open>Inl\<close> of the exception's text)
  or gives the file's content; the result is the triple the function puts on the queue.
\<close>

definition parse_sol_content_threaded :: "string + byte list \<Rightarrow> (nat \<Rightarrow> bool) \<Rightarrow> int \<Rightarrow> outcome" where
  "parse_sol_content_threaded file stop max_bytes_to_process =
     (case file of
        Inl e \<Rightarrow> ([(''Error'', ''Error parsing: '' @ e)], True, ''Error'')
      | Inr data \<Rightarrow>
          (let data_to_process = slice_to data max_bytes_to_process
           in scan_matches data_to_process stop 0 (finditer 0 data_to_process) [] 0))"

text \<open>The event is never set: no cancellation is requested.\<close>

abbreviation never :: "nat \<Rightarrow> bool" where
  "never \<equiv> (\<lambda>_. False)"

section \<open>The harness: \<open>parse_sol_content_with_timeout\<close>\<close>

text \<open>
  What \<open>q.get(timeout=timeout)\<close> does: it returns the triple the scanner has put on the
  queue, raises \<open>queue.Empty\<close> when the time is over, or raises something else.
\<close>

datatype queue_get = Got outcome | Queue_Empty | Raised string

text \<open>
  The harness, given the result of the wait and the text that formatting the timeout
  gives (\<open>''5.0''\<close> for the default).
\<close>

definition parse_sol_content_with_timeout :: "queue_get \<Rightarrow> string \<Rightarrow> outcome" where
  "parse_sol_content_with_timeout got timeout =
     (case got of
        Got r \<Rightarrow> r
      | Queue_Empty \<Rightarrow>
          ([(''Error'', ''Parsing timed out after '' @ timeout @
              ''s. Content may be too large or complex.'')], True, ''Timed Out'')
      | Raised e \<Rightarrow> ([(''Error'', ''Unexpected error: '' @ e)], True, ''Error''))"

section \<open>The field extraction loop of \<open>main\<close>\<close>

text \<open>
  \<open>str.isspace\<close> and the class \<open>\w\<close> of a \<open>str\<close> pattern, on the code points 0 to 255.
\<close>

definition isspace :: "char \<Rightarrow> bool" where
  "isspace c = (let n = of_char c :: nat
                in (0x09 \<le> n \<and> n \<le> 0x0D) \<or> (0x1C \<le> n \<and> n \<le> 0x20) \<or> n = 0x85 \<or> n = 0xA0)"

definition word_char :: "char \<Rightarrow> bool" where
  "word_char c = (let n = of_char c :: nat
                  in (0x30 \<le> n \<and> n \<le> 0x39) \<or> (0x41 \<le> n \<and> n \<le> 0x5A) \<or> n = 0x5F \<or>
                     (0x61 \<le> n \<and> n \<le> 0x7A) \<or>
                     n = 0xAA \<or> n = 0xB2 \<or> n = 0xB3 \<or> n = 0xB5 \<or> n = 0xB9 \<or> n = 0xBA \<or>
                     (0xBC \<le> n \<and> n \<le> 0xBE) \<or> (0xC0 \<le> n \<and> n \<le> 0xD6) \<or>
                     (0xD8 \<le> n \<and> n \<le> 0xF6) \<or> 0xF8 \<le> n)"

definition strip :: "string \<Rightarrow> string" where
  "strip s = rev (dropWhile isspace (rev (dropWhile isspace s)))"

text \<open>\<open>clean_string\<close> on a \<open>str\<close> (the tokens' values are never \<open>bytes\<close>).\<close>

definition clean_string :: "string \<Rightarrow> string" where
  "clean_string s = strip (filter (\<lambda>c. c \<noteq> CHR 0x00) s)"

text \<open>\<open>re.sub(r'^\W+', '', s)\<close>: the leading run of non-word characters goes.\<close>

definition strip_leading_nonword :: "string \<Rightarrow> string" where
  "strip_leading_nonword s = dropWhile (\<lambda>c. \<not> word_char c) s"

text \<open>
  The two conditions on the tokens after a label, as the loop writes them for both
  labels. Python's \<open>and\<close> evaluates \<open>content[i+1]\<close> only when the bound holds.
\<close>

definition motif3 :: "token list \<Rightarrow> nat \<Rightarrow> bool" where
  "motif3 content i =
     (i + 3 < length content \<and>
      content ! (i + 1) = (''Byte'', ''0x06'') \<and>
      fst (content ! (i + 2)) = ''String'' \<and>
      content ! (i + 3) = (''Byte'', ''0x00''))"

definition motif4 :: "token list \<Rightarrow> nat \<Rightarrow> bool" where
  "motif4 content i =
     (i + 4 < length content \<and>
      content ! (i + 1) = (''Byte'', ''0x06'') \<and>
      fst (content ! (i + 2)) = ''Byte'' \<and>
      fst (content ! (i + 3)) = ''String'' \<and>
      content ! (i + 4) = (''Byte'', ''0x00''))"

text \<open>
  One round of \<open>for i in range(len(content))\<close>, on the pair
  \<open>(extracted_email, extracted_password)\<close>.
\<close>

definition extract_step :: "token list \<Rightarrow> nat \<Rightarrow> string \<times> string \<Rightarrow> string \<times> string" where
  "extract_step content i st =
     (let (item_type, item_value) = content ! i;
          (extracted_email, extracted_password) = st;
          extracted_password =
            (if item_type = ''String'' \<and> item_value = ''Password'' then
               (if motif3 content i then
                  strip_leading_nonword (clean_string (snd (content ! (i + 2))))
                else if motif4 content i then
                  strip_leading_nonword (clean_string (snd (content ! (i + 3))))
                else extracted_password)
             else extracted_password);
          extracted_email =
            (if item_type = ''String'' \<and> item_value = ''Email'' then
               (if motif3 content i then
                  (let potential_email = strip_leading_nonword (clean_string (snd (content ! (i + 2))))
                   in if CHR ''@'' \<in> set potential_email \<and> CHR ''.'' \<in> set potential_email
                      then potential_email else extracted_email)
                else if motif4 content i then
                  (let potential_email = strip_leading_nonword (clean_string (snd (content ! (i + 3))))
                   in if CHR ''@'' \<in> set potential_email \<and> CHR ''.'' \<in> set potential_email
                      then potential_email else extracted_email)
                else extracted_email)
             else extracted_email)
      in (extracted_email, extracted_password))"

text \<open>
  The loop from its start: both fields begin as \<open>''Not found''\<close>. The result is the
  pair \<open>(extracted_email, extracted_password)\<close>.
\<close>

definition extractFields :: "token list \<Rightarrow> string \<times> string" where
  "extractFields content =
     fold (extract_step content) [0..<length content] (''Not found'', ''Not found'')"


section \<open>Reference notions for the properties\<close>

text \<open>
  The octets as characters, one for one, and the token list read off the buffer's
  runs: a maximal run of two or more printable octets is one \<open>''String''\<close> token, every
  other octet is one \<open>''Byte''\<close> token. The scanner is compared with it
  (lemma \<open>parse_never\<close>).
\<close>

definition ascii_text :: "byte list \<Rightarrow> string" where
  "ascii_text bs = map (\<lambda>b. char_of (unat b)) bs"

function runs_tokens :: "byte list \<Rightarrow> token list" where
  "runs_tokens [] = []"
| "runs_tokens (b # bs) =
     (let run = takeWhile printable (b # bs)
      in if 2 \<le> length run
         then (''String'', ascii_text run) # runs_tokens (dropWhile printable (b # bs))
         else byte_token b # runs_tokens bs)"
  by pat_completeness auto
termination
  by (relation "measure length") (auto simp: less_Suc_eq_le length_dropWhile_le split: if_splits)

text \<open>The tokens of an uninterrupted scan of a whole buffer.\<close>

definition complete_tokens :: "byte list \<Rightarrow> token list" where
  "complete_tokens bs = fst (parse_sol_content_threaded (Inr bs) never (int (length bs)))"

text \<open>How many input octets a token stands for.\<close>

definition token_bytes :: "token \<Rightarrow> nat" where
  "token_bytes t = (if fst t = ''String'' then length (snd t) else 1)"

text \<open>Well-formed tokens of a scan.\<close>

definition lower_hex :: "char \<Rightarrow> bool" where
  "lower_hex c = (c \<in> set ''0123456789abcdef'')"

definition printable_char :: "char \<Rightarrow> bool" where
  "printable_char c = (let n = of_char c :: nat
                       in (0x20 \<le> n \<and> n \<le> 0x7E) \<or> n = 0x09 \<or> n = 0x0A \<or> n = 0x0D)"

definition well_formed :: "token \<Rightarrow> bool" where
  "well_formed t =
     (if fst t = ''Byte''
      then length (snd t) = 4 \<and> take 2 (snd t) = ''0x'' \<and> list_all lower_hex (drop 2 (snd t))
      else fst t = ''String'' \<and> 2 \<le> length (snd t) \<and> list_all printable_char (snd t))"

text \<open>
  The value a label's occurrence at index \<open>i\<close> offers: the cleaned text of the motif
  that matches there, if one does. \<open>email_shape\<close> is the test the loop applies to an
  e-mail candidate; \<open>last_or d xs\<close> is the last element of \<open>xs\<close>, or \<open>d\<close> when there is
  none.
\<close>

definition password_candidate :: "token list \<Rightarrow> nat \<Rightarrow> string option" where
  "password_candidate content i =
     (if content ! i = (''String'', ''Password'') then
        (if motif3 content i then
           Some (strip_leading_nonword (clean_string (snd (content ! (i + 2)))))
         else if motif4 content i then
           Some (strip_leading_nonword (clean_string (snd (content ! (i + 3)))))
         else None)
      else None)"

definition email_candidate :: "token list \<Rightarrow> nat \<Rightarrow> string option" where
  "email_candidate content i =
     (if content ! i = (''String'', ''Email'') then
        (if motif3 content i then
           Some (strip_leading_nonword (clean_string (snd (content ! (i + 2)))))
         else if motif4 content i then
           Some (strip_leading_nonword (clean_string (snd (content ! (i + 3)))))
         else None)
      else None)"

definition email_shape :: "string \<Rightarrow> bool" where
  "email_shape s = (CHR ''@'' \<in> set s \<and> CHR ''.'' \<in> set s)"

definition last_or :: "'a \<Rightarrow> 'a list \<Rightarrow> 'a" where
  "last_or d xs = (if xs = [] then d else last xs)"

section \<open>The scanner against the runs of the buffer\<close>

lemma printable_ascii: "printable b \<Longrightarrow> unat b < 0x80"
  by (auto simp: printable_def)

lemma decode_ignore_printable:
  "\<forall>b \<in> set bs. printable b \<Longrightarrow> decode_ignore bs = ascii_text bs"
proof -
  assume a: "\<forall>b \<in> set bs. printable b"
  have "filter (\<lambda>b. unat b < 0x80) bs = bs"
    using a by (auto intro!: filter_True dest: printable_ascii)
  then show ?thesis by (simp add: decode_ignore_def ascii_text_def)
qed

lemma decode_ignore_run: "decode_ignore (takeWhile printable bs) = ascii_text (takeWhile printable bs)"
  by (rule decode_ignore_printable) (auto dest: set_takeWhileD)

lemma slice_same: "slice xs i i = []"
  by (simp add: slice_def)

lemma slice_app_right: "slice (pre @ rest) (length pre) (length pre + n) = take n rest"
  by (simp add: slice_def)

lemma slice_snoc: "i \<le> length pre \<Longrightarrow> slice (pre @ b # bs) i (Suc (length pre)) = slice (pre @ b # bs) i (length pre) @ [b]"
  by (simp add: slice_def Suc_diff_le take_Suc_conv_app_nth nth_append)

lemma slice_to_end: "i \<le> length xs \<Longrightarrow> slice xs i (length xs) = drop i xs"
  by (simp add: slice_def)

lemma scan_matches_never:
  "last_match_end \<le> length pre \<Longrightarrow>
   scan_matches (pre @ rest) never k (finditer (length pre) rest) acc last_match_end =
     (acc @ map byte_token (slice (pre @ rest) last_match_end (length pre)) @ runs_tokens rest,
      False, ''Complete'')"
proof (induction rest arbitrary: pre k acc last_match_end rule: runs_tokens.induct)
  case 1
  then show ?case by (simp add: slice_to_end)
next
  case (2 b bs)
  let ?run = "takeWhile printable (b # bs)"
  let ?n = "length ?run"
  show ?case
  proof (cases "2 \<le> ?n")
    case True
    have split: "pre @ b # bs = (pre @ ?run) @ dropWhile printable (b # bs)"
      by simp
    have dr: "drop ?n (b # bs) = dropWhile printable (b # bs)"
      by (rule dropWhile_eq_drop [symmetric])
    have tk: "take ?n (b # bs) = ?run"
      by (rule takeWhile_eq_take [symmetric])
    have ne: "ascii_text ?run \<noteq> []"
      using True by (auto simp: ascii_text_def split: if_splits)
    have raw: "decode_ignore (slice (pre @ b # bs) (length pre) (length pre + ?n)) = ascii_text ?run"
      unfolding slice_app_right tk by (rule decode_ignore_run)
    have IH: "scan_matches ((pre @ ?run) @ dropWhile printable (b # bs)) never (k + 1)
        (finditer (length (pre @ ?run)) (dropWhile printable (b # bs))) acc' (length (pre @ ?run)) =
       (acc' @ map byte_token (slice ((pre @ ?run) @ dropWhile printable (b # bs)) (length (pre @ ?run)) (length (pre @ ?run)))
          @ runs_tokens (dropWhile printable (b # bs)), False, ''Complete'')" for acc'
      using "2.IH"(1) [OF refl True, of "length (pre @ ?run)" "pre @ ?run" "k + 1" acc'] by simp
    have fi: "finditer (length pre) (b # bs) =
        (length pre, length pre + ?n) # finditer (length pre + ?n) (dropWhile printable (b # bs))"
      using True dr by (simp add: Let_def del: takeWhile.simps dropWhile.simps)
    have rt: "runs_tokens (b # bs) = (''String'', ascii_text ?run) # runs_tokens (dropWhile printable (b # bs))"
      using True by (simp add: Let_def del: takeWhile.simps dropWhile.simps)
    show ?thesis
      unfolding fi rt
      using "2.prems" IH ne raw
      by (simp add: Let_def slice_same del: takeWhile.simps dropWhile.simps finditer.simps runs_tokens.simps)
  next
    case False
    have fi: "finditer (length pre) (b # bs) = finditer (length (pre @ [b])) bs"
      using False by (simp add: Let_def del: takeWhile.simps)
    have rt: "runs_tokens (b # bs) = byte_token b # runs_tokens bs"
      using False by (simp add: Let_def del: takeWhile.simps)
    have IH: "scan_matches ((pre @ [b]) @ bs) never k (finditer (length (pre @ [b])) bs) acc last_match_end =
       (acc @ map byte_token (slice ((pre @ [b]) @ bs) last_match_end (length (pre @ [b]))) @ runs_tokens bs, False, ''Complete'')"
      using "2.IH"(2) [OF refl False, of last_match_end "pre @ [b]" k acc] "2.prems" by simp
    show ?thesis
      unfolding fi rt using IH "2.prems" by (simp add: slice_snoc)
  qed
qed


lemma scan_matches_extends:
  "prefix acc (fst (scan_matches d stop k ms acc last_match_end))"
proof (induction ms arbitrary: k acc last_match_end)
  case Nil
  show ?case by simp
next
  case (Cons m ms)
  obtain s e where m: "m = (s, e)" by (cases m)
  show ?case
  proof (cases "stop k")
    case True
    then show ?thesis by (simp add: m)
  next
    case False
    show ?thesis
      using False Cons.IH [where k = "k + 1" and last_match_end = e]
      by (auto simp: m Let_def intro: append_prefixD)
  qed
qed

lemma scan_matches_prefix:
  "prefix (fst (scan_matches d stop k ms acc last_match_end))
          (fst (scan_matches d never k' ms acc last_match_end))"
proof (induction ms arbitrary: k k' acc last_match_end)
  case Nil
  show ?case by simp
next
  case (Cons m ms)
  obtain s e where m: "m = (s, e)" by (cases m)
  show ?case
  proof (cases "stop k")
    case True
    then show ?thesis
      using scan_matches_extends [of acc d never k' "m # ms" last_match_end]
      by (simp add: m)
  next
    case False
    then show ?thesis
      using Cons.IH [where k = "k + 1" and k' = "k' + 1" and last_match_end = e]
      by (simp add: m Let_def)
  qed
qed

lemma scan_matches_stopped:
  "j < length ms \<Longrightarrow> stop (k + j) \<Longrightarrow>
   snd (scan_matches d stop k ms acc last_match_end) = (True, ''Interrupted'')"
proof (induction ms arbitrary: j k acc last_match_end)
  case Nil
  then show ?case by simp
next
  case (Cons m ms)
  obtain s e where m: "m = (s, e)" by (cases m)
  show ?case
  proof (cases "stop k")
    case True
    then show ?thesis by (simp add: m)
  next
    case False
    then obtain j' where j: "j = Suc j'"
      using Cons.prems by (cases j) auto
    then show ?thesis
      using False Cons.prems Cons.IH [where j = j' and k = "k + 1" and last_match_end = e]
      by (simp add: m Let_def)
  qed
qed

lemma runs_tokens_coverage: "sum_list (map token_bytes (runs_tokens bs)) = length bs"
proof (induction bs rule: runs_tokens.induct)
  case 1
  show ?case by simp
next
  case (2 b bs)
  let ?run = "takeWhile printable (b # bs)"
  show ?case
  proof (cases "2 \<le> length ?run")
    case True
    have "length ?run + length (dropWhile printable (b # bs)) = length (b # bs)"
      by (metis length_append takeWhile_dropWhile_id)
    then show ?thesis
      using True "2.IH"(1) [OF refl True]
      by (simp add: Let_def token_bytes_def ascii_text_def del: takeWhile.simps dropWhile.simps)
  next
    case False
    then show ?thesis
      using "2.IH"(2) [OF refl False]
      by (simp add: Let_def token_bytes_def byte_token_def del: takeWhile.simps)
  qed
qed


lemma scan_matches_complete_never:
  "snd (scan_matches d stop k ms acc last_match_end) = (False, msg) \<Longrightarrow>
   scan_matches d stop k ms acc last_match_end = scan_matches d never k' ms acc last_match_end"
proof (induction ms arbitrary: k k' acc last_match_end)
  case Nil
  show ?case by simp
next
  case (Cons m ms)
  obtain s e where m: "m = (s, e)" by (cases m)
  have ns: "\<not> stop k"
    using Cons.prems by (auto simp: m)
  show ?case
    using ns Cons.prems Cons.IH [where k = "k + 1" and k' = "k' + 1" and last_match_end = e]
    by (simp add: m Let_def)
qed

lemma parse_Inr:
  "parse_sol_content_threaded (Inr data) stop m =
     scan_matches (slice_to data m) stop 0 (finditer 0 (slice_to data m)) [] 0"
  by (simp add: parse_sol_content_threaded_def Let_def)

lemma parse_never:
  "parse_sol_content_threaded (Inr data) never m =
     (runs_tokens (slice_to data m), False, ''Complete'')"
  using scan_matches_never [of 0 "[]" "slice_to data m" 0 "[]"]
  by (simp add: parse_Inr slice_same)

lemma parse_prefix:
  "prefix (fst (parse_sol_content_threaded (Inr data) stop m)) (runs_tokens (slice_to data m))"
  using scan_matches_prefix [of "slice_to data m" stop 0 "finditer 0 (slice_to data m)" "[]" 0 0]
        parse_never [of data m]
  by (simp add: parse_Inr)

section \<open>Well-formed tokens\<close>

lemma lower_hex_digit: "lower_hex (hex_digit n)"
  unfolding lower_hex_def hex_digit_def
  by (rule nth_mem) simp

lemma well_formed_byte: "well_formed (byte_token b)"
  by (simp add: well_formed_def byte_token_def format_byte_def lower_hex_digit)

lemma printable_char_of: "printable b \<Longrightarrow> printable_char (char_of (unat b))"
proof -
  assume p: "printable b"
  have "unat b < 256" using printable_ascii [OF p] by simp
  then have "(of_char (char_of (unat b)) :: nat) = unat b" by simp
  then show ?thesis using p by (simp add: printable_char_def printable_def)
qed

lemma printable_ascii_text: "list_all printable_char (ascii_text (takeWhile printable bs))"
  by (auto simp: ascii_text_def list_all_iff dest: set_takeWhileD intro: printable_char_of)

lemma runs_tokens_well_formed: "list_all well_formed (runs_tokens bs)"
proof (induction bs rule: runs_tokens.induct)
  case 1
  show ?case by simp
next
  case (2 b bs)
  let ?run = "takeWhile printable (b # bs)"
  show ?case
  proof (cases "2 \<le> length ?run")
    case True
    have "well_formed (''String'', ascii_text ?run)"
      using True printable_ascii_text [of "b # bs"]
      by (simp add: well_formed_def ascii_text_def del: takeWhile.simps)
    then show ?thesis
      using True "2.IH"(1) [OF refl True]
      by (simp add: Let_def del: takeWhile.simps dropWhile.simps)
  next
    case False
    then show ?thesis
      using "2.IH"(2) [OF refl False] well_formed_byte [of b]
      by (simp add: Let_def del: takeWhile.simps)
  qed
qed

section \<open>The extraction loop as a scan for the last accepted candidate\<close>

lemma last_or_simps: "last_or d [] = d" "last_or d (x # xs) = last_or x xs"
  by (simp_all add: last_or_def)

lemma extract_step_password:
  "snd (extract_step content i (e, p)) =
     (case password_candidate content i of Some v \<Rightarrow> v | None \<Rightarrow> p)"
  by (cases "content ! i") (simp add: extract_step_def password_candidate_def Let_def)

lemma extract_step_email:
  "fst (extract_step content i (e, p)) =
     (case email_candidate content i of
        Some c \<Rightarrow> if email_shape c then c else e
      | None \<Rightarrow> e)"
  by (cases "content ! i") (simp add: extract_step_def email_candidate_def email_shape_def Let_def)

lemma fold_extract_password:
  "snd (fold (extract_step content) is (e, p)) =
     last_or p (List.map_filter (password_candidate content) is)"
proof (induction "is" arbitrary: e p)
  case Nil
  show ?case by (simp add: last_or_simps List.map_filter_simps)
next
  case (Cons i "is")
  obtain e' p' where st: "extract_step content i (e, p) = (e', p')"
    by (cases "extract_step content i (e, p)")
  have p': "p' = (case password_candidate content i of Some v \<Rightarrow> v | None \<Rightarrow> p)"
    using extract_step_password [of content i e p] st by simp
  show ?case
    using Cons.IH [of e' p'] st p'
    by (simp add: List.map_filter_simps last_or_simps split: option.splits)
qed

lemma fold_extract_email:
  "fst (fold (extract_step content) is (e, p)) =
     last_or e (filter email_shape (List.map_filter (email_candidate content) is))"
proof (induction "is" arbitrary: e p)
  case Nil
  show ?case by (simp add: last_or_simps List.map_filter_simps)
next
  case (Cons i "is")
  obtain e' p' where st: "extract_step content i (e, p) = (e', p')"
    by (cases "extract_step content i (e, p)")
  have e': "e' = (case email_candidate content i of
        Some c \<Rightarrow> if email_shape c then c else e | None \<Rightarrow> e)"
    using extract_step_email [of content i e p] st by simp
  show ?case
    using Cons.IH [of e' p'] st e'
    by (simp add: List.map_filter_simps last_or_simps split: option.splits)
qed

section \<open>Token lists of a buffer cut between runs\<close>

lemma runs_tokens_all_printable:
  "\<forall>b \<in> set bs. printable b \<Longrightarrow>
   runs_tokens bs = (if 2 \<le> length bs then [(''String'', ascii_text bs)] else map byte_token bs)"
proof (cases bs)
  case Nil
  then show ?thesis by simp
next
  case (Cons b bs')
  assume a: "\<forall>b \<in> set bs. printable b"
  have tw: "takeWhile printable (b # bs') = b # bs'"
    using a Cons by (simp add: takeWhile_eq_all_conv)
  have dw: "dropWhile printable (b # bs') = []"
    using a Cons by simp
  have "bs' = []" if "\<not> 2 \<le> length (b # bs')"
    using that by (cases bs') simp_all
  then show ?thesis
    unfolding Cons runs_tokens.simps tw dw Let_def by auto
qed

lemma runs_tokens_append:
  assumes "pre = [] \<or> \<not> printable (last pre) \<or> post = [] \<or> \<not> printable (hd post)"
  shows "runs_tokens (pre @ post) = runs_tokens pre @ runs_tokens post"
  using assms
proof (induction pre rule: runs_tokens.induct)
  case 1
  show ?case by simp
next
  case (2 b bs)
  let ?pre = "b # bs"
  show ?case
  proof (cases "\<forall>x \<in> set ?pre. printable x")
    case True
    then have "printable (last ?pre)"
      using last_in_set [of ?pre] by blast
    then have post: "post = [] \<or> \<not> printable (hd post)"
      using "2.prems" by simp
    have twp: "takeWhile printable post = []"
      using post by (cases post) auto
    have dwp: "dropWhile printable post = post"
      using post by (cases post) auto
    have tw: "takeWhile printable (?pre @ post) = ?pre"
      using True twp takeWhile_append2 [of ?pre printable post] by simp
    have tw': "takeWhile printable ?pre = ?pre"
      using True by (simp add: takeWhile_eq_all_conv del: takeWhile.simps)
    have dw: "dropWhile printable (?pre @ post) = post"
      using True dwp dropWhile_append2 [of ?pre printable post] by simp
    have dw': "dropWhile printable ?pre = []"
      using True by (simp del: dropWhile.simps)
    have one: "bs = []" if "\<not> 2 \<le> length ?pre"
      using that by (cases bs) simp_all
    have "runs_tokens ((b # bs) @ post) =
       (if 2 \<le> length ?pre then (''String'', ascii_text ?pre) # runs_tokens post
        else byte_token b # runs_tokens (bs @ post))"
      using tw dw by (simp add: Let_def del: takeWhile.simps dropWhile.simps)
    moreover have "runs_tokens ?pre =
       (if 2 \<le> length ?pre then [(''String'', ascii_text ?pre)] else [byte_token b])"
      using runs_tokens_all_printable [OF True] one by auto
    ultimately show ?thesis
      using one by auto
  next
    case False
    then have ex: "\<exists>x \<in> set ?pre. \<not> printable x" by blast
    have tw: "takeWhile printable (?pre @ post) = takeWhile printable ?pre"
      using ex by (metis takeWhile_append1)
    have dw: "dropWhile printable (?pre @ post) = dropWhile printable ?pre @ post"
      using ex by (metis dropWhile_append1)
    show ?thesis
    proof (cases "2 \<le> length (takeWhile printable ?pre)")
      case True
      have ne: "dropWhile printable ?pre \<noteq> []"
        using ex by (simp add: dropWhile_eq_Nil_conv del: dropWhile.simps)
      have "last (dropWhile printable ?pre) = last ?pre"
        using ne by (metis last_appendR takeWhile_dropWhile_id)
      then have c: "dropWhile printable ?pre = [] \<or> \<not> printable (last (dropWhile printable ?pre))
          \<or> post = [] \<or> \<not> printable (hd post)"
        using "2.prems" by auto
      have IH: "runs_tokens (dropWhile printable ?pre @ post) =
          runs_tokens (dropWhile printable ?pre) @ runs_tokens post"
        using "2.IH"(1) [OF refl True c] .
      have l: "runs_tokens (?pre @ post) =
          (''String'', ascii_text (takeWhile printable ?pre)) # runs_tokens (dropWhile printable ?pre @ post)"
        using True tw dw by (simp add: Let_def del: takeWhile.simps dropWhile.simps)
      have r: "runs_tokens ?pre =
          (''String'', ascii_text (takeWhile printable ?pre)) # runs_tokens (dropWhile printable ?pre)"
        using True by (simp add: Let_def del: takeWhile.simps dropWhile.simps)
      show ?thesis
        unfolding l r IH by simp
    next
      case short: False
      have c: "bs = [] \<or> \<not> printable (last bs) \<or> post = [] \<or> \<not> printable (hd post)"
        using "2.prems" by (cases "bs = []") auto
      have IH: "runs_tokens (bs @ post) = runs_tokens bs @ runs_tokens post"
        using "2.IH"(2) [OF refl short c] .
      have l: "runs_tokens (?pre @ post) = byte_token b # runs_tokens (bs @ post)"
        using short tw by (simp add: Let_def del: takeWhile.simps dropWhile.simps)
      have r: "runs_tokens ?pre = byte_token b # runs_tokens bs"
        using short by (simp add: Let_def del: takeWhile.simps dropWhile.simps)
      show ?thesis
        unfolding l r IH by simp
    qed
  qed
qed

lemma complete_tokens_runs: "complete_tokens bs = runs_tokens bs"
  by (simp add: complete_tokens_def parse_never slice_to_def)

section \<open>The claims\<close>

text \<open>
  Claim C1, as stated (the first structural match of the password wins), fails: with two
  \<open>''Password''\<close> labels that are both followed by a 3-token motif, the first one
  offers \<open>''first''\<close> and the loop's result is not \<open>''first''\<close>.
\<close>

theorem password_first_match_counterexample:
  "password_candidate
     [(''String'', ''Password''), (''Byte'', ''0x06''), (''String'', ''first''), (''Byte'', ''0x00''),
      (''String'', ''Password''), (''Byte'', ''0x06''), (''String'', ''second''), (''Byte'', ''0x00'')] 0
     = Some ''first'' \<and>
   snd (extractFields
     [(''String'', ''Password''), (''Byte'', ''0x06''), (''String'', ''first''), (''Byte'', ''0x00''),
      (''String'', ''Password''), (''Byte'', ''0x06''), (''String'', ''second''), (''Byte'', ''0x00'')])
     \<noteq> ''first''"
  by code_simp

text \<open>
  Claim C1, amended: the password returned is the cleaned value of the last index at
  which a \<open>''Password''\<close> label is followed by a structurally valid 3-token or
  4-token motif; every earlier structural match is overwritten.
\<close>

theorem password_last_match_wins:
  assumes "i < length content"
    and "password_candidate content i = Some v"
    and "\<forall>j. i < j \<and> j < length content \<longrightarrow> password_candidate content j = None"
  shows "snd (extractFields content) = v"
proof -
  have later: "List.map_filter (password_candidate content) [Suc i..<length content] = []"
    using assms(3) by (auto simp: List.map_filter_def filter_empty_conv)
  have "[0..<length content] = [0..<i] @ i # [Suc i..<length content]"
    using assms(1) using upt_add_eq_append [of 0 i "length content - i"] by (simp add: upt_conv_Cons)
  then have "List.map_filter (password_candidate content) [0..<length content] =
      List.map_filter (password_candidate content) [0..<i] @ [v]"
    using assms(2) later by (simp add: List.map_filter_def)
  then show ?thesis
    by (simp add: extractFields_def fold_extract_password last_or_def)
qed

theorem password_last_match_wins_witness:
  "password_candidate
     [(''String'', ''Password''), (''Byte'', ''0x06''), (''String'', ''old''), (''Byte'', ''0x00''),
      (''String'', ''Password''), (''Byte'', ''0x06''), (''Byte'', ''0xff''), (''String'', '' new!''),
      (''Byte'', ''0x00'')] 0 = Some ''old'' \<and>
   snd (extractFields
     [(''String'', ''Password''), (''Byte'', ''0x06''), (''String'', ''old''), (''Byte'', ''0x00''),
      (''String'', ''Password''), (''Byte'', ''0x06''), (''Byte'', ''0xff''), (''String'', '' new!''),
      (''Byte'', ''0x00'')]) = ''new!''"
proof -
  let ?c = "[(''String'', ''Password''), (''Byte'', ''0x06''), (''String'', ''old''), (''Byte'', ''0x00''),
      (''String'', ''Password''), (''Byte'', ''0x06''), (''Byte'', ''0xff''), (''String'', '' new!''),
      (''Byte'', ''0x00'')]"
  have h0: "password_candidate ?c 0 = Some ''old''" by code_simp
  have h1: "(4::nat) < length ?c" by simp
  have h2: "password_candidate ?c 4 = Some ''new!''" by code_simp
  have h3: "\<forall>j. 4 < j \<and> j < length ?c \<longrightarrow> password_candidate ?c j = None"
    by (simp add: password_candidate_def motif3_def motif4_def)
  show ?thesis
    using h0 password_last_match_wins [OF h1 h2 h3] by simp
qed

text \<open>
  Claim C2, as stated (on a timeout the token list is empty and the status message
  names the duration), fails: the token list holds one token and the status message is
  \<open>''Timed Out''\<close>.
\<close>

theorem timeout_tokens_counterexample:
  "fst (parse_sol_content_with_timeout Queue_Empty ''5.0'') \<noteq> [] \<and>
   snd (snd (parse_sol_content_with_timeout Queue_Empty ''5.0'')) = ''Timed Out''"
  by (simp add: parse_sol_content_with_timeout_def)

text \<open>
  Claim C2, amended: when the wait ends with \<open>queue.Empty\<close>, the harness returns one
  \<open>''Error''\<close> token whose text names the timeout duration, the incomplete flag set,
  and the status message \<open>''Timed Out''\<close>.
\<close>

theorem timeout_outcome:
  "parse_sol_content_with_timeout Queue_Empty timeout =
     ([(''Error'', ''Parsing timed out after '' @ timeout @
         ''s. Content may be too large or complex.'')], True, ''Timed Out'')"
  by (simp add: parse_sol_content_with_timeout_def)

text \<open>
  Claim C3: when the scanner's outcome is complete (the flag \<open>was_incomplete\<close> is
  \<open>False\<close>), the numbers of octets its tokens stand for (the length of the text of a
  \<open>''String''\<close> token, 1 for a \<open>''Byte''\<close> token) add up to the length of the
  truncated buffer.
\<close>

theorem complete_outcome_covers_buffer:
  assumes "parse_sol_content_threaded (Inr data) stop max_bytes = (tokens, False, message)"
  shows "sum_list (map token_bytes tokens) = length (slice_to data max_bytes)"
proof -
  have "snd (scan_matches (slice_to data max_bytes) stop 0
               (finditer 0 (slice_to data max_bytes)) [] 0) = (False, message)"
    using assms by (simp add: parse_Inr)
  then have "parse_sol_content_threaded (Inr data) stop max_bytes =
             parse_sol_content_threaded (Inr data) never max_bytes"
    unfolding parse_Inr by (rule scan_matches_complete_never)
  then have "tokens = runs_tokens (slice_to data max_bytes)"
    using assms parse_never [of data max_bytes] by simp
  then show ?thesis by (simp add: runs_tokens_coverage)
qed

theorem complete_outcome_covers_buffer_witness:
  "parse_sol_content_threaded (Inr [0x61, 0x00, 0x62, 0x63, 0x01, 0x64, 0x02, 0x65, 0x66, 0x67]) never 8 =
     ([(''Byte'', ''0x61''), (''Byte'', ''0x00''), (''String'', ''bc''), (''Byte'', ''0x01''),
       (''Byte'', ''0x64''), (''Byte'', ''0x02''), (''Byte'', ''0x65'')], False, ''Complete'') \<and>
   sum_list (map token_bytes
     [(''Byte'', ''0x61''), (''Byte'', ''0x00''), (''String'', ''bc''), (''Byte'', ''0x01''),
       (''Byte'', ''0x64''), (''Byte'', ''0x02''), (''Byte'', ''0x65'')]) = 8"
proof -
  have h: "parse_sol_content_threaded (Inr [0x61, 0x00, 0x62, 0x63, 0x01, 0x64, 0x02, 0x65, 0x66, 0x67]) never 8 =
     ([(''Byte'', ''0x61''), (''Byte'', ''0x00''), (''String'', ''bc''), (''Byte'', ''0x01''),
       (''Byte'', ''0x64''), (''Byte'', ''0x02''), (''Byte'', ''0x65'')], False, ''Complete'')"
    by code_simp
  have l: "length (slice_to [0x61, 0x00, 0x62, 0x63, 0x01, 0x64, 0x02, 0x65, 0x66, 0x67 :: byte] 8) = 8"
    by (simp add: slice_to_def)
  show ?thesis
    using h complete_outcome_covers_buffer [OF h] l by simp
qed

text \<open>
  Claim C4: when the event is found set at a poll of the scan (poll \<open>k\<close>, one of the
  polls the scan of this buffer makes), the outcome is \<open>''Interrupted''\<close> and its token
  list is a prefix of the token list of the complete outcome for the same input with
  the event never set.
\<close>

theorem cancellation_prefix:
  assumes "k < length (finditer 0 (slice_to data max_bytes))" and "stop k"
  shows "snd (parse_sol_content_threaded (Inr data) stop max_bytes) = (True, ''Interrupted'') \<and>
         snd (parse_sol_content_threaded (Inr data) never max_bytes) = (False, ''Complete'') \<and>
         prefix (fst (parse_sol_content_threaded (Inr data) stop max_bytes))
                (fst (parse_sol_content_threaded (Inr data) never max_bytes))"
proof -
  have "snd (parse_sol_content_threaded (Inr data) stop max_bytes) = (True, ''Interrupted'')"
    using scan_matches_stopped [of k "finditer 0 (slice_to data max_bytes)" stop 0] assms
    by (simp add: parse_Inr)
  then show ?thesis
    using parse_prefix [of data stop max_bytes] by (simp add: parse_never)
qed

theorem cancellation_prefix_witness:
  "parse_sol_content_threaded (Inr [0x61, 0x00, 0x62, 0x63, 0x01, 0x64, 0x02, 0x65, 0x66, 0x67])
      (\<lambda>k. 1 \<le> k) 102400 =
     ([(''Byte'', ''0x61''), (''Byte'', ''0x00''), (''String'', ''bc'')], True, ''Interrupted'') \<and>
   prefix [(''Byte'', ''0x61''), (''Byte'', ''0x00''), (''String'', ''bc'')]
     (fst (parse_sol_content_threaded (Inr [0x61, 0x00, 0x62, 0x63, 0x01, 0x64, 0x02, 0x65, 0x66, 0x67])
        never 102400))"
proof -
  let ?d = "[0x61, 0x00, 0x62, 0x63, 0x01, 0x64, 0x02, 0x65, 0x66, 0x67] :: byte list"
  have s: "slice_to ?d 102400 = ?d"
    by (simp add: slice_to_def)
  have m: "finditer 0 ?d = [(2, 4), (7, 10)]"
    by code_simp
  have h1: "1 < length (finditer 0 (slice_to ?d 102400))"
    unfolding s m by simp
  have h2: "(\<lambda>k::nat. 1 \<le> k) 1"
    by simp
  have "scan_matches ?d (\<lambda>k. 1 \<le> k) 0 [(2, 4), (7, 10)] [] 0 =
     ([(''Byte'', ''0x61''), (''Byte'', ''0x00''), (''String'', ''bc'')], True, ''Interrupted'')"
    by code_simp
  then have r: "parse_sol_content_threaded (Inr ?d) (\<lambda>k. 1 \<le> k) 102400 =
     ([(''Byte'', ''0x61''), (''Byte'', ''0x00''), (''String'', ''bc'')], True, ''Interrupted'')"
    by (simp only: parse_Inr s m)
  show ?thesis
    using r cancellation_prefix [of 1 ?d 102400 "\<lambda>k. 1 \<le> k", OF h1 h2] by simp
qed

text \<open>
  Claim C5: in one round of the loop the e-mail becomes the cleaned candidate after an
  \<open>''Email''\<close> label only if the candidate contains both \<open>@\<close> and \<open>.\<close>, and keeps
  its value otherwise; over the whole scan the result is the last candidate that passes
  the test, or \<open>''Not found''\<close> when none does.
\<close>

theorem email_needs_shape:
  "fst (extract_step content i (email, password)) =
     (case email_candidate content i of
        Some c \<Rightarrow> if email_shape c then c else email
      | None \<Rightarrow> email) \<and>
   fst (extractFields content) =
     last_or ''Not found''
       (filter email_shape (List.map_filter (email_candidate content) [0..<length content]))"
  by (simp add: extract_step_email extractFields_def fold_extract_email)

theorem email_needs_shape_witness:
  "fst (extractFields
     [(''String'', ''Email''), (''Byte'', ''0x06''), (''String'', ''not-an-email''), (''Byte'', ''0x00''),
      (''String'', ''Email''), (''Byte'', ''0x06''), (''String'', ''  a@b.com''), (''Byte'', ''0x00''),
      (''String'', ''Email''), (''Byte'', ''0x06''), (''Byte'', ''0x01''), (''String'', ''a@b''), (''Byte'', ''0x00'')])
   = ''a@b.com''"
proof -
  let ?c = "[(''String'', ''Email''), (''Byte'', ''0x06''), (''String'', ''not-an-email''), (''Byte'', ''0x00''),
      (''String'', ''Email''), (''Byte'', ''0x06''), (''String'', ''  a@b.com''), (''Byte'', ''0x00''),
      (''String'', ''Email''), (''Byte'', ''0x06''), (''Byte'', ''0x01''), (''String'', ''a@b''), (''Byte'', ''0x00'')]"
  have "last_or ''Not found''
       (filter email_shape (List.map_filter (email_candidate ?c) [0..<length ?c])) = ''a@b.com''"
    by code_simp
  then show ?thesis
    using email_needs_shape [of ?c 0 "''Not found''" "''Not found''"] by simp
qed

text \<open>
  Claim C6: in an uninterrupted scan, a printable octet with no printable neighbour in
  the truncated buffer (a maximal printable run of length 1) is emitted as one
  \<open>''Byte''\<close> token, and two printable octets with no printable neighbour on either
  side (a maximal printable run of length 2) are emitted as one \<open>''String''\<close> token
  holding both; before and after it stand the tokens of the rest of the buffer. Whatever
  the polls of the event answer, the scan's tokens are a prefix of that list.
\<close>

theorem run_threshold:
  assumes "pre = [] \<or> \<not> printable (last pre)"
    and "post = [] \<or> \<not> printable (hd post)"
  shows "(slice_to data max_bytes = pre @ [b] @ post \<and> printable b \<longrightarrow>
            fst (parse_sol_content_threaded (Inr data) never max_bytes) =
              complete_tokens pre @ [(''Byte'', format_byte b)] @ complete_tokens post \<and>
            prefix (fst (parse_sol_content_threaded (Inr data) stop max_bytes))
              (complete_tokens pre @ [(''Byte'', format_byte b)] @ complete_tokens post)) \<and>
         (slice_to data max_bytes = pre @ [b1, b2] @ post \<and> printable b1 \<and> printable b2 \<longrightarrow>
            fst (parse_sol_content_threaded (Inr data) never max_bytes) =
              complete_tokens pre @ [(''String'', [char_of (unat b1), char_of (unat b2)])] @
              complete_tokens post \<and>
            prefix (fst (parse_sol_content_threaded (Inr data) stop max_bytes))
              (complete_tokens pre @ [(''String'', [char_of (unat b1), char_of (unat b2)])] @
               complete_tokens post))"
proof -
  have one: "runs_tokens (pre @ [b] @ post) = runs_tokens pre @ [(''Byte'', format_byte b)] @ runs_tokens post"
    if "printable b"
  proof -
    have "runs_tokens (pre @ ([b] @ post)) = runs_tokens pre @ runs_tokens ([b] @ post)"
      using assms(1) by (intro runs_tokens_append) auto
    moreover have "runs_tokens ([b] @ post) = runs_tokens [b] @ runs_tokens post"
      using assms(2) by (intro runs_tokens_append) auto
    moreover have "runs_tokens [b] = [(''Byte'', format_byte b)]"
      using that by (simp add: Let_def byte_token_def)
    ultimately show ?thesis by simp
  qed
  have two: "runs_tokens (pre @ [b1, b2] @ post) =
      runs_tokens pre @ [(''String'', [char_of (unat b1), char_of (unat b2)])] @ runs_tokens post"
    if "printable b1" "printable b2"
  proof -
    have "runs_tokens (pre @ ([b1, b2] @ post)) = runs_tokens pre @ runs_tokens ([b1, b2] @ post)"
      using assms(1) by (intro runs_tokens_append) auto
    moreover have "runs_tokens ([b1, b2] @ post) = runs_tokens [b1, b2] @ runs_tokens post"
      using assms(2) by (intro runs_tokens_append) auto
    moreover have "runs_tokens [b1, b2] = [(''String'', [char_of (unat b1), char_of (unat b2)])]"
      using that by (simp add: Let_def ascii_text_def)
    ultimately show ?thesis by simp
  qed
  show ?thesis
    using one two parse_prefix [of data stop max_bytes]
    by (auto simp: parse_never complete_tokens_runs)
qed

theorem run_threshold_witness:
  "fst (parse_sol_content_threaded (Inr [0x00, 0x41, 0x01]) never 102400) =
     [(''Byte'', ''0x00''), (''Byte'', ''0x41''), (''Byte'', ''0x01'')] \<and>
   fst (parse_sol_content_threaded (Inr [0x00, 0x41, 0x42, 0x01]) never 102400) =
     [(''Byte'', ''0x00''), (''String'', ''AB''), (''Byte'', ''0x01'')]"
proof -
  let ?pre = "[0x00] :: byte list" and ?post = "[0x01] :: byte list"
  have h1: "?pre = [] \<or> \<not> printable (last ?pre)"
    by (simp add: printable_def)
  have h2: "?post = [] \<or> \<not> printable (hd ?post)"
    by (simp add: printable_def)
  have s1: "slice_to [0x00, 0x41, 0x01 :: byte] 102400 = ?pre @ [0x41] @ ?post"
    by (simp add: slice_to_def)
  have s2: "slice_to [0x00, 0x41, 0x42, 0x01 :: byte] 102400 = ?pre @ [0x41, 0x42] @ ?post"
    by (simp add: slice_to_def)
  have p1: "printable (0x41 :: byte)" and p2: "printable (0x42 :: byte)"
    by (simp_all add: printable_def)
  have c1: "complete_tokens ?pre = [(''Byte'', ''0x00'')]"
    by code_simp
  have c2: "complete_tokens ?post = [(''Byte'', ''0x01'')]"
    by code_simp
  have f: "format_byte 0x41 = ''0x41''"
    by code_simp
  have t: "[char_of (unat (0x41 :: byte)), char_of (unat (0x42 :: byte))] = ''AB''"
    by code_simp
  have a: "fst (parse_sol_content_threaded (Inr [0x00, 0x41, 0x01]) never 102400) =
      complete_tokens ?pre @ [(''Byte'', format_byte 0x41)] @ complete_tokens ?post"
    using run_threshold [OF h1 h2, of "[0x00, 0x41, 0x01]" 102400 "0x41" never] s1 p1 by blast
  have b: "fst (parse_sol_content_threaded (Inr [0x00, 0x41, 0x42, 0x01]) never 102400) =
      complete_tokens ?pre @ [(''String'', [char_of (unat (0x41 :: byte)), char_of (unat (0x42 :: byte))])] @
      complete_tokens ?post"
    using run_threshold [OF h1 h2, of "[0x00, 0x41, 0x42, 0x01]" 102400 _ never "0x41" "0x42"] s2 p1 p2 by blast
  show ?thesis
    unfolding a b c1 c2 f t by simp
qed

text \<open>
  Claim C7: two buffers that agree on their first \<open>max_bytes\<close> octets give the same
  outcome (tokens, flag and status message), whatever the polls of the event answer;
  and with the event never set the outcome is \<open>''Complete''\<close> with the flag
  \<open>False\<close>, however long the buffer is: the truncation is not reported.
\<close>

theorem truncation_hides_the_rest:
  assumes "0 \<le> max_bytes" and "take (nat max_bytes) data1 = take (nat max_bytes) data2"
  shows "parse_sol_content_threaded (Inr data1) stop max_bytes =
           parse_sol_content_threaded (Inr data2) stop max_bytes \<and>
         snd (parse_sol_content_threaded (Inr data1) never max_bytes) = (False, ''Complete'')"
  using assms parse_never [of data1 max_bytes] by (simp add: parse_Inr slice_to_def)

theorem truncation_hides_the_rest_witness:
  "parse_sol_content_threaded (Inr [0x41, 0x42, 0x00, 0x43, 0x44]) never 3 =
     parse_sol_content_threaded (Inr [0x41, 0x42, 0x00, 0xFF]) never 3 \<and>
   parse_sol_content_threaded (Inr [0x41, 0x42, 0x00, 0x43, 0x44]) never 3 =
     ([(''String'', ''AB''), (''Byte'', ''0x00'')], False, ''Complete'')"
proof -
  have h1: "(0::int) \<le> 3" by simp
  have h2: "take (nat 3) [0x41, 0x42, 0x00, 0x43, 0x44 :: byte] = take (nat 3) [0x41, 0x42, 0x00, 0xFF]"
    by (simp add: numeral_3_eq_3)
  have r: "parse_sol_content_threaded (Inr [0x41, 0x42, 0x00, 0x43, 0x44]) never 3 =
     ([(''String'', ''AB''), (''Byte'', ''0x00'')], False, ''Complete'')"
    by code_simp
  show ?thesis
    using r truncation_hides_the_rest [OF h1 h2, of never] by simp
qed

text \<open>
  Claim C8: when the file cannot be opened or read, the scanner's outcome is the single
  token \<open>(''Error'', ''Error parsing: ...'')\<close> with the flag set and the status
  \<open>''Error''\<close>, a value and not an exception, and the harness hands that outcome to
  its caller as it is.
\<close>

theorem unreadable_file_is_an_error_outcome:
  "parse_sol_content_threaded (Inl e) stop max_bytes =
     ([(''Error'', ''Error parsing: '' @ e)], True, ''Error'') \<and>
   parse_sol_content_with_timeout (Got (parse_sol_content_threaded (Inl e) stop max_bytes)) timeout =
     ([(''Error'', ''Error parsing: '' @ e)], True, ''Error'')"
  by (simp add: parse_sol_content_threaded_def parse_sol_content_with_timeout_def)

text \<open>
  Claim C9: for an empty file the scanner returns the complete outcome with no tokens.
\<close>

theorem empty_file_complete:
  "parse_sol_content_threaded (Inr []) stop max_bytes = ([], False, ''Complete'')"
  by (simp add: parse_Inr slice_to_def)

text \<open>
  Claim C10: every token of an outcome of a scan, complete or interrupted, is well
  formed: the value of a \<open>''Byte''\<close> token is \<open>0x\<close> and two lowercase hexadecimal
  digits, and the text of a \<open>''String''\<close> token has at least two characters, all of
  them printable ASCII.
\<close>

theorem tokens_well_formed:
  "list_all well_formed (fst (parse_sol_content_threaded (Inr data) stop max_bytes))"
proof -
  have "set (fst (parse_sol_content_threaded (Inr data) stop max_bytes))
          \<subseteq> set (runs_tokens (slice_to data max_bytes))"
    using parse_prefix [of data stop max_bytes] by (rule set_mono_prefix)
  then show ?thesis
    using runs_tokens_well_formed [of "slice_to data max_bytes"]
    by (auto simp: list_all_iff)
qed

theorem tokens_well_formed_witness:
  "fst (parse_sol_content_threaded (Inr [0x61, 0x00, 0x62, 0x63, 0xFF]) never 102400) =
     [(''Byte'', ''0x61''), (''Byte'', ''0x00''), (''String'', ''bc''), (''Byte'', ''0xff'')] \<and>
   list_all well_formed
     [(''Byte'', ''0x61''), (''Byte'', ''0x00''), (''String'', ''bc''), (''Byte'', ''0xff'')]"
proof -
  let ?d = "[0x61, 0x00, 0x62, 0x63, 0xFF] :: byte list"
  have s: "slice_to ?d 102400 = ?d"
    by (simp add: slice_to_def)
  have "fst (scan_matches ?d never 0 (finditer 0 ?d) [] 0) =
     [(''Byte'', ''0x61''), (''Byte'', ''0x00''), (''String'', ''bc''), (''Byte'', ''0xff'')]"
    by code_simp
  then have r: "fst (parse_sol_content_threaded (Inr ?d) never 102400) =
     [(''Byte'', ''0x61''), (''Byte'', ''0x00''), (''String'', ''bc''), (''Byte'', ''0xff'')]"
    by (simp only: parse_Inr s)
  show ?thesis
    using r tokens_well_formed [of ?d never 102400] by simp
qed

end
